theory Spec2Isabelle
  imports Main
begin

section \<open>Python values and built-ins used by discovery.py\<close>

text \<open>
  A Python \<open>bytes\<close> object is a list of bytes and a Python \<open>str\<close> a list of
  characters.  Every string the program handles is produced by \<open>str()\<close> of a bytes
  object, so it only holds ASCII characters and \<^typ>\<open>char\<close> (one byte) represents both.
\<close>

type_synonym bytes = "char list"

text \<open>The exceptions the program can meet.  \<open>SocketTimeout\<close> is \<open>socket.timeout\<close>, the one
  exception \<open>getDiscoveryPacket\<close> catches; \<open>BlockingIOError\<close> and the other \<open>OSError\<close>s of a
  socket are not caught by \<open>except timeout\<close>.\<close>

datatype error =
  ValueError | AttributeError | OverflowError | SocketTimeout | BlockingIOError | OSError

text \<open>What reading an attribute of a packet object can give: \<open>None\<close>, a \<open>str\<close>, or
  what the class provides under that name (for \<open>_assignValues\<close>, the method bound to the
  object).\<close>

datatype pyval = PNone | PStr string | PClassAttr string

subsection \<open>\<open>str(bytes)\<close>\<close>

text \<open>
  In Python 3 \<open>str(b)\<close> of a bytes object is \<open>repr(b)\<close>: the letter \<open>b\<close>, a quote, the
  bytes with the non-printable ones escaped, and the closing quote.  The quote is \<open>'\<close>
  unless the bytes hold a \<open>'\<close> and no \<open>"\<close>.  (\<open>CHR 0x27\<close> is \<open>'\<close>, \<open>CHR 0x22\<close> is \<open>"\<close>,
  \<open>CHR 0x5C\<close> is the backslash.)
\<close>

definition hexdigits :: string where
  "hexdigits = ''0123456789abcdef''"

definition repr_byte :: "char \<Rightarrow> char \<Rightarrow> string" where
  "repr_byte quote c =
     (if c = quote \<or> c = CHR 0x5C then [CHR 0x5C, c]
      else if c = CHR 0x09 then [CHR 0x5C, CHR ''t'']
      else if c = CHR 0x0A then [CHR 0x5C, CHR ''n'']
      else if c = CHR 0x0D then [CHR 0x5C, CHR ''r'']
      else if (of_char c :: nat) < 0x20 \<or> 0x7F \<le> (of_char c :: nat)
        then [CHR 0x5C, CHR ''x'', hexdigits ! ((of_char c :: nat) div 16),
              hexdigits ! ((of_char c :: nat) mod 16)]
      else [c])"

definition bytes_quote :: "bytes \<Rightarrow> char" where
  "bytes_quote s =
     (if CHR 0x27 \<in> set s \<and> CHR 0x22 \<notin> set s then CHR 0x22 else CHR 0x27)"

definition str_bytes :: "bytes \<Rightarrow> string" where
  "str_bytes s =
     CHR ''b'' # bytes_quote s # concat (map (repr_byte (bytes_quote s)) s) @ [bytes_quote s]"

subsection \<open>\<open>str.split(sep)\<close>, \<open>in\<close>, \<open>str.replace\<close>, \<open>str.startswith\<close>\<close>

text \<open>\<open>s.split(sep)\<close> for a one-character separator: the pieces between the separators,
  empty pieces included; the result is never the empty list.\<close>

fun split_on :: "char \<Rightarrow> string \<Rightarrow> string list" where
  "split_on sep [] = [[]]"
| "split_on sep (c # cs) =
     (if c = sep then [] # split_on sep cs
      else (case split_on sep cs of
              [] \<Rightarrow> [[c]]
            | w # ws \<Rightarrow> (c # w) # ws))"

text \<open>\<open>key, value = parts\<close>: unpacking into two targets raises \<open>ValueError\<close> unless the
  list has exactly two elements.\<close>

fun unpack2 :: "'a list \<Rightarrow> error + ('a \<times> 'a)" where
  "unpack2 [a, b] = Inr (a, b)"
| "unpack2 _ = Inl ValueError"

text \<open>\<open>"b'" in key\<close>\<close>

fun contains_bq :: "string \<Rightarrow> bool" where
  "contains_bq (a # b # cs) = ((a = CHR ''b'' \<and> b = CHR 0x27) \<or> contains_bq (b # cs))"
| "contains_bq _ = False"

text \<open>\<open>key.replace("b'", "")\<close>: every occurrence is removed, scanning from the left.\<close>

fun replace_bq :: "string \<Rightarrow> string" where
  "replace_bq (a # b # cs) =
     (if a = CHR ''b'' \<and> b = CHR 0x27 then replace_bq cs else a # replace_bq (b # cs))"
| "replace_bq cs = cs"

definition startswith :: "string \<Rightarrow> string \<Rightarrow> bool" where
  "startswith s p = (take (length p) s = p)"

subsection \<open>Dictionaries\<close>

text \<open>A \<open>dict\<close> keeps its items in insertion order; \<open>d[k] = v\<close> replaces the value of a
  key that is present, in place, and appends a new key at the end.\<close>

fun dict_set :: "'k \<Rightarrow> 'v \<Rightarrow> ('k \<times> 'v) list \<Rightarrow> ('k \<times> 'v) list" where
  "dict_set k v [] = [(k, v)]"
| "dict_set k v ((k', v') # d) =
     (if k' = k then (k, v) # d else (k', v') # dict_set k v d)"

section \<open>class FlexRadioDiscoveryPacket\<close>

text \<open>A packet object is its instance dictionary (\<open>__dict__\<close>): attribute names and
  values, in the order the attributes were created.\<close>

type_synonym packet = "(string \<times> pyval) list"

text \<open>The attributes \<open>__init__\<close> creates, all \<open>None\<close>.\<close>

definition schema :: "string list" where
  "schema = [''requires_additional_license'', ''nickname'', ''version'',
     ''discovery_protocol_version'', ''inuse_ip'', ''model'', ''max_licensed_version'',
     ''serial'', ''inuse_host'', ''port'', ''radio_license_id'', ''ip'', ''status'',
     ''callsign'', ''fpc_mac'']"

definition init_attrs :: packet where
  "init_attrs = map (\<lambda>n. (n, PNone)) schema"

text \<open>The names the class itself provides: those of the class body, and those inherited
  from \<open>object\<close>.  All but \<open>_assignValues\<close> start with two underscores.\<close>

definition class_names :: "string list" where
  "class_names = [''__module__'', ''__doc__'', ''__init__'', ''_assignValues'',
     ''__dict__'', ''__weakref__'', ''__class__'', ''__delattr__'', ''__dir__'', ''__eq__'',
     ''__format__'', ''__ge__'', ''__getattribute__'', ''__getstate__'', ''__gt__'',
     ''__hash__'', ''__init_subclass__'', ''__le__'', ''__lt__'', ''__ne__'', ''__new__'',
     ''__reduce__'', ''__reduce_ex__'', ''__repr__'', ''__setattr__'', ''__sizeof__'',
     ''__str__'', ''__subclasshook__'']"

text \<open>\<open>dir(self)\<close>: the names of the class and of the instance.  (Python sorts the list and
  removes duplicates; the program only tests membership.)\<close>

definition py_dir :: "packet \<Rightarrow> string list" where
  "py_dir self = class_names @ map fst self"

definition py_setattr :: "packet \<Rightarrow> string \<Rightarrow> pyval \<Rightarrow> packet" where
  "py_setattr self k v = dict_set k v self"

text \<open>Attribute access: the instance dictionary first, then the class (none of its
  names is a data descriptor that the program assigns to), else \<open>AttributeError\<close>.\<close>

definition py_getattr :: "packet \<Rightarrow> string \<Rightarrow> error + pyval" where
  "py_getattr self name =
     (case map_of self name of
        Some v \<Rightarrow> Inr v
      | None \<Rightarrow> if name \<in> set class_names then Inr (PClassAttr name) else Inl AttributeError)"

text \<open>The two lines printed for a key that is not in \<open>obj_var_list\<close>.\<close>

definition diag :: "string \<Rightarrow> string \<Rightarrow> string list" where
  "diag k v =
     [''New values found in discovery packet that do not match DiscoveryPacket class'',
      ''Attribute: '' @ k @ '' - Value: '' @ v]"

text \<open>The loop of \<open>_assignValues\<close> over \<open>packet_values.items()\<close>; the state is the object
  and the lines printed so far.\<close>

fun assign_loop ::
  "string list \<Rightarrow> (string \<times> string) list \<Rightarrow> packet \<times> string list \<Rightarrow> packet \<times> string list"
where
  "assign_loop obj_var_list [] (self, out) = (self, out)"
| "assign_loop obj_var_list ((k, v) # items) (self, out) =
     (if k \<in> set obj_var_list
      then assign_loop obj_var_list items (py_setattr self k (PStr v), out)
      else assign_loop obj_var_list items (self, out @ diag k v))"

definition assignValues :: "packet \<Rightarrow> (string \<times> string) list \<Rightarrow> packet \<times> string list" where
  "assignValues self packet_values =
     (let obj_var_list = filter (\<lambda>item. \<not> startswith item ''__'') (py_dir self)
      in assign_loop obj_var_list packet_values (self, []))"

text \<open>The constructor: the object and what it printed.\<close>

definition FlexRadioDiscoveryPacket :: "(string \<times> string) list \<Rightarrow> packet \<times> string list" where
  "FlexRadioDiscoveryPacket packet_values = assignValues init_attrs packet_values"

section \<open>class FlexRadioDiscoveryListener\<close>

text \<open>
  The socket is its timeout, as \<open>settimeout\<close> left it, and what the network brings to its
  successive \<open>recvfrom\<close> calls: a datagram, nothing, or a failure of the socket.  When the
  list is used up nothing arrives any more.  The class docstring gives the parameters as
  \<open>bind_ip\<close> (str), \<open>port\<close> (INT) and \<open>timeout\<close> (INT, in seconds), and so does the model;
  \<open>timeout=None\<close>, which would make \<open>recvfrom\<close> wait for ever, is not an integer.
\<close>

datatype recv_event = NoDatagram | Datagram bytes | RecvError

record listener =
  sock_timeout :: int
  sock :: "recv_event list"
  packet_values :: "(string \<times> string) list"

text \<open>
  What the listener meets outside the program: whether the system lets it create the
  socket and set its options, whether it accepts the address at \<open>bind\<close>, the largest
  timeout the platform can hold, and what the network will bring.
\<close>

record host =
  socket_ok :: bool
  bind_ok :: bool
  max_timeout :: int
  incoming :: "recv_event list"

text \<open>
  \<open>__init__\<close>, in the order of its statements.  \<open>socket\<close> and \<open>setsockopt\<close> raise an
  \<open>OSError\<close> when the system refuses; \<open>settimeout\<close> raises \<open>ValueError\<close> for a negative
  timeout and \<open>OverflowError\<close> for one too large; \<open>bind\<close> raises \<open>OverflowError\<close> for a port
  outside 0..65535 and an \<open>OSError\<close> when the system refuses the address (in use, not
  permitted, not an address).  An exception leaves no listener.
\<close>

definition FlexRadioDiscoveryListener ::
  "string \<Rightarrow> int \<Rightarrow> int \<Rightarrow> host \<Rightarrow> error + listener"
where
  "FlexRadioDiscoveryListener ipaddr port timeout h =
     (if \<not> socket_ok h then Inl OSError
      else if timeout < 0 then Inl ValueError
      else if max_timeout h < timeout then Inl OverflowError
      else if port < 0 \<or> 65535 < port then Inl OverflowError
      else if \<not> bind_ok h then Inl OSError
      else Inr \<lparr>sock_timeout = timeout, sock = incoming h, packet_values = []\<rparr>)"

text \<open>
  \<open>recvfrom(bufsize)\<close> on a socket with timeout \<open>t\<close>.  A datagram is returned, cut to
  \<open>bufsize\<close> bytes.  When nothing arrives, a socket with a positive timeout raises
  \<open>socket.timeout\<close> once the time is over; with timeout 0 the socket is non-blocking and
  raises \<open>BlockingIOError\<close> at once.
\<close>

fun recvfrom :: "int \<Rightarrow> nat \<Rightarrow> recv_event list \<Rightarrow> (error + bytes) \<times> recv_event list" where
  "recvfrom t bufsize [] = (Inl (if t = 0 then BlockingIOError else SocketTimeout), [])"
| "recvfrom t bufsize (NoDatagram # es) =
     (Inl (if t = 0 then BlockingIOError else SocketTimeout), es)"
| "recvfrom t bufsize (RecvError # es) = (Inl OSError, es)"
| "recvfrom t bufsize (Datagram d # es) = (Inr (take bufsize d), es)"

text \<open>The key as it is stored: \<open>if "b'" in key: key = str(key.replace("b'", ""))\<close>.\<close>

definition fix_key :: "string \<Rightarrow> string" where
  "fix_key key = (if contains_bq key then replace_bq key else key)"

text \<open>The \<open>for item in plist\<close> loop.  It updates \<open>self._packet_values\<close> as it goes, so
  when \<open>ValueError\<close> is raised the items stored before stay in the dictionary.\<close>

fun parse_loop ::
  "string list \<Rightarrow> (string \<times> string) list \<Rightarrow> (string \<times> string) list \<times> error option"
where
  "parse_loop [] pv = (pv, None)"
| "parse_loop (item # plist) pv =
     (case unpack2 (split_on CHR ''='' item) of
        Inl e \<Rightarrow> (pv, Some e)
      | Inr (key, value) \<Rightarrow> parse_loop plist (dict_set (fix_key key) value pv))"

text \<open>\<open>getDiscoveryPacket\<close>: the result (\<open>Inl\<close> an exception that propagates to the caller,
  \<open>Inr None\<close> for \<open>None\<close>, \<open>Inr (Some p)\<close> for a packet object), the listener afterwards,
  and the lines printed.  Of the exceptions of \<open>recvfrom\<close> only \<open>socket.timeout\<close> is caught.\<close>

definition getDiscoveryPacket ::
  "listener \<Rightarrow> (error + packet option) \<times> listener \<times> string list"
where
  "getDiscoveryPacket self =
     (case recvfrom (sock_timeout self) 1024 (sock self) of
        (Inl e, rest) \<Rightarrow>
          (if e = SocketTimeout then Inr None else Inl e, self\<lparr>sock := rest\<rparr>, [])
      | (Inr data, rest) \<Rightarrow>
          (let plist = split_on CHR '' '' (str_bytes (drop 28 data));
               (pv, err) = parse_loop plist (packet_values self);
               self' = self\<lparr>sock := rest, packet_values := pv\<rparr>
           in case err of
                Some e \<Rightarrow> (Inl e, self', [])
              | None \<Rightarrow>
                  (let (p, out) = FlexRadioDiscoveryPacket pv
                   in (Inr (Some p), self', out))))"

section \<open>Vocabulary of the properties\<close>

text \<open>The text of an item before its first \<open>=\<close>, and the text after it.\<close>

definition before_eq :: "string \<Rightarrow> string" where
  "before_eq item = takeWhile (\<lambda>c. c \<noteq> CHR ''='') item"

definition after_eq :: "string \<Rightarrow> string" where
  "after_eq item = tl (dropWhile (\<lambda>c. c \<noteq> CHR ''='') item)"

text \<open>An item with exactly one \<open>=\<close>.\<close>

definition one_eq :: "string \<Rightarrow> bool" where
  "one_eq item = (count_list item CHR ''='' = 1)"

text \<open>What one round of the \<open>for\<close> loop does to the dictionary when the item unpacks.\<close>

definition store :: "string \<Rightarrow> (string \<times> string) list \<Rightarrow> (string \<times> string) list" where
  "store item pv = dict_set (fix_key (before_eq item)) (after_eq item) pv"

text \<open>The tokens of a datagram as sent: the bytes after the 28-byte header (of the at
  most 1024 bytes \<open>recvfrom\<close> returns), split at the spaces.\<close>

definition payload_tokens :: "bytes \<Rightarrow> bytes list" where
  "payload_tokens data = split_on CHR '' '' (drop 28 (take 1024 data))"

text \<open>A byte that \<open>str()\<close> shows as itself whatever surrounds it: printable ASCII other
  than the single quote and the backslash.\<close>

definition plain_char :: "char \<Rightarrow> bool" where
  "plain_char c = (0x20 \<le> (of_char c :: nat) \<and> (of_char c :: nat) < 0x7F \<and>
                   c \<noteq> CHR 0x27 \<and> c \<noteq> CHR 0x5C)"

section \<open>Scenarios\<close>

text \<open>A host that refuses nothing, with the network bringing \<open>events\<close>.\<close>

definition willing_host :: "recv_event list \<Rightarrow> host" where
  "willing_host events =
     \<lparr>socket_ok = True, bind_ok = True, max_timeout = 9223372036, incoming = events\<rparr>"

text \<open>The listener \<open>FlexRadioDiscoveryListener()\<close> gives with its default arguments
  (\<open>'0.0.0.0'\<close>, 4992, 3) on such a host.\<close>

definition default_listener :: "recv_event list \<Rightarrow> listener" where
  "default_listener events = \<lparr>sock_timeout = 3, sock = events, packet_values = []\<rparr>"

text \<open>A listener made with \<open>timeout=0\<close>, on a network that brings nothing.\<close>

definition nonblocking_listener :: listener where
  "nonblocking_listener = \<lparr>sock_timeout = 0, sock = [], packet_values = []\<rparr>"

text \<open>A 28-byte header of zero bytes, as in the end-to-end scenarios.\<close>

definition zero_header :: bytes where
  "zero_header = replicate 28 (CHR 0x00)"

definition two_radios :: listener where
  "two_radios = default_listener
     [Datagram (zero_header @ ''serial=1234-5678 model=FLEX-6600''),
      Datagram (zero_header @ ''model=FLEX-6400'')]"

definition malformed_then_good :: listener where
  "malformed_then_good = default_listener
     [Datagram (zero_header @ ''model=FLEX-6600 garbage''),
      Datagram (zero_header @ ''serial=1234-5678 status=Available'')]"

definition unknown_keys_payload :: bytes where
  "unknown_keys_payload = zero_header @ ''foo=bar serial=1234-5678 x=1 foo=baz y=2''"

section \<open>Splitting and unpacking\<close>

lemma split_on_not_Nil: "split_on sep s \<noteq> []"
  by (induction s) (auto split: list.splits)

lemma split_on_Cons_other:
  "c \<noteq> sep \<Longrightarrow> split_on sep (c # cs) = (c # hd (split_on sep cs)) # tl (split_on sep cs)"
  using split_on_not_Nil [of sep cs] by (cases "split_on sep cs") auto

lemma split_on_prefix:
  "sep \<notin> set pre \<Longrightarrow>
   split_on sep (pre @ r) = (pre @ hd (split_on sep r)) # tl (split_on sep r)"
proof (induction pre)
  case Nil
  then show ?case using split_on_not_Nil [of sep r] by simp
next
  case (Cons c pre)
  then have "c \<noteq> sep" by auto
  then show ?case using Cons by (simp add: split_on_Cons_other del: split_on.simps)
qed

lemma split_on_no_sep: "sep \<notin> set s \<Longrightarrow> split_on sep s = [s]"
  using split_on_prefix [of sep s "[]"] by simp

lemma length_split_on: "length (split_on sep s) = Suc (count_list s sep)"
proof (induction s)
  case Nil
  show ?case by simp
next
  case (Cons c s)
  then show ?case using split_on_not_Nil [of sep s]
    by (cases "split_on sep s") auto
qed

lemma split_on_one:
  assumes "count_list s sep = 1"
  shows "split_on sep s = [takeWhile (\<lambda>c. c \<noteq> sep) s, tl (dropWhile (\<lambda>c. c \<noteq> sep) s)]"
  using assms
proof (induction s)
  case Nil
  then show ?case by simp
next
  case (Cons c s)
  show ?case
  proof (cases "c = sep")
    case True
    with Cons.prems have "count_list s sep = 0" by simp
    then have "sep \<notin> set s" by (simp add: count_list_0_iff)
    then show ?thesis using True by (simp add: split_on_no_sep)
  next
    case False
    with Cons.prems have "count_list s sep = 1" by simp
    from Cons.IH [OF this] False show ?thesis by simp
  qed
qed

lemma unpack2_Inl: "unpack2 xs = Inl e \<longleftrightarrow> length xs \<noteq> 2 \<and> e = ValueError"
  by (cases xs rule: unpack2.cases) auto

lemma unpack2_split_one:
  "one_eq item \<Longrightarrow> unpack2 (split_on CHR ''='' item) = Inr (before_eq item, after_eq item)"
  by (simp add: one_eq_def before_eq_def after_eq_def split_on_one)

lemma unpack2_split_other:
  "\<not> one_eq item \<Longrightarrow> unpack2 (split_on CHR ''='' item) = Inl ValueError"
  by (simp add: unpack2_Inl length_split_on one_eq_def)

text \<open>The loop stores the items before the first one that does not unpack, and raises
  \<open>ValueError\<close> when there is one.\<close>

lemma parse_loop_general:
  "parse_loop plist pv =
     (fold store (takeWhile one_eq plist) pv,
      if list_all one_eq plist then None else Some ValueError)"
proof (induction plist arbitrary: pv)
  case Nil
  show ?case by simp
next
  case (Cons item plist)
  show ?case
  proof (cases "one_eq item")
    case True
    then show ?thesis by (simp add: unpack2_split_one store_def Cons.IH)
  next
    case False
    then show ?thesis by (simp add: unpack2_split_other)
  qed
qed

section \<open>The text of a bytes object keeps the tokens\<close>

text \<open>\<open>str()\<close> adds no space and no \<open>=\<close>: the items of \<open>plist\<close> are, one for one, the
  tokens of the payload, each with as many \<open>=\<close> as the token has.\<close>

lemma hexdigit_plain:
  assumes "n < 16"
  shows "hexdigits ! n \<noteq> CHR '' '' \<and> hexdigits ! n \<noteq> CHR ''=''"
proof -
  have "length hexdigits = 16" by (simp add: hexdigits_def)
  with assms have "hexdigits ! n \<in> set hexdigits" by simp
  then show ?thesis by (auto simp: hexdigits_def)
qed

lemma of_char_div16: "(of_char c :: nat) div 16 < 16"
proof -
  have "(of_char c :: nat) < 256" by (rule nat_of_char_less_256) 
  then show ?thesis by arith
qed

lemma repr_byte_space:
  "q \<noteq> CHR '' '' \<Longrightarrow> repr_byte q (CHR '' '') = [CHR '' '']"
  by (simp add: repr_byte_def)

lemma repr_byte_no_space:
  "c \<noteq> CHR '' '' \<Longrightarrow> CHR '' '' \<notin> set (repr_byte q c)"
  using hexdigit_plain [OF of_char_div16 [of c]] hexdigit_plain [of "of_char c mod 16"]
  by (auto simp add: repr_byte_def)

lemma repr_byte_count_eq:
  "q \<noteq> CHR ''='' \<Longrightarrow>
   count_list (repr_byte q c) (CHR ''='') = count_list [c] (CHR ''='')"
  using hexdigit_plain [OF of_char_div16 [of c]] hexdigit_plain [of "of_char c mod 16"]
  by (auto simp add: repr_byte_def)

lemma count_eq_split_repr:
  assumes "q \<noteq> CHR '' ''" and "q \<noteq> CHR ''=''"
  shows "map (\<lambda>t. count_list t (CHR ''='')) (split_on (CHR '' '') (concat (map (repr_byte q) s) @ [q]))
       = map (\<lambda>t. count_list t (CHR ''='')) (split_on (CHR '' '') s)"
proof (induction s)
  case Nil
  show ?case using assms by simp
next
  case (Cons c s)
  let ?X = "concat (map (repr_byte q) s) @ [q]"
  show ?case
  proof (cases "c = CHR '' ''")
    case True
    then show ?thesis using Cons assms by (simp add: repr_byte_space)
  next
    case False
    have l: "split_on (CHR '' '') (repr_byte q c @ ?X) =
          (repr_byte q c @ hd (split_on (CHR '' '') ?X)) # tl (split_on (CHR '' '') ?X)"
      by (rule split_on_prefix) (rule repr_byte_no_space [OF False])
    have r: "split_on (CHR '' '') (c # s) =
          (c # hd (split_on (CHR '' '') s)) # tl (split_on (CHR '' '') s)"
      by (rule split_on_Cons_other) (rule False)
    have h: "count_list (hd (split_on (CHR '' '') ?X)) (CHR ''='') =
             count_list (hd (split_on (CHR '' '') s)) (CHR ''='')"
      using arg_cong [OF Cons, of hd] split_on_not_Nil [of "CHR '' ''" ?X]
        split_on_not_Nil [of "CHR '' ''" s]
      by (simp add: hd_map)
    have t: "map (\<lambda>t. count_list t (CHR ''='')) (tl (split_on (CHR '' '') ?X)) =
             map (\<lambda>t. count_list t (CHR ''='')) (tl (split_on (CHR '' '') s))"
      using arg_cong [OF Cons, of tl] by (simp add: map_tl)
    have "concat (map (repr_byte q) (c # s)) @ [q] = repr_byte q c @ ?X" by simp
    then show ?thesis
      using h t repr_byte_count_eq [OF assms(2), of c]
      by (simp only: l r list.map) simp
  qed
qed

lemma bytes_quote_cases: "bytes_quote s = CHR 0x27 \<or> bytes_quote s = CHR 0x22"
  by (simp add: bytes_quote_def)

lemma count_eq_str_bytes:
  "map (\<lambda>t. count_list t (CHR ''='')) (split_on (CHR '' '') (str_bytes s))
   = map (\<lambda>t. count_list t (CHR ''='')) (split_on (CHR '' '') s)"
proof -
  let ?q = "bytes_quote s"
  let ?X = "concat (map (repr_byte ?q) s) @ [?q]"
  let ?cnt = "\<lambda>t. count_list t (CHR ''='')"
  have q: "?q \<noteq> CHR '' ''" "?q \<noteq> CHR ''=''"
    using bytes_quote_cases [of s] by auto
  have sp: "CHR '' '' \<notin> set [CHR ''b'', ?q]" using q by auto
  have "str_bytes s = [CHR ''b'', ?q] @ ?X" by (simp add: str_bytes_def)
  then have "map ?cnt (split_on (CHR '' '') (str_bytes s)) =
      ?cnt ([CHR ''b'', ?q] @ hd (split_on (CHR '' '') ?X)) # map ?cnt (tl (split_on (CHR '' '') ?X))"
    by (simp only: split_on_prefix [OF sp] list.map)
  also have "?cnt ([CHR ''b'', ?q] @ hd (split_on (CHR '' '') ?X)) = ?cnt (hd (split_on (CHR '' '') ?X))"
    using q by simp
  also have "?cnt (hd (split_on (CHR '' '') ?X)) # map ?cnt (tl (split_on (CHR '' '') ?X)) =
      map ?cnt (split_on (CHR '' '') ?X)"
    using split_on_not_Nil [of "CHR '' ''" ?X] by (cases "split_on (CHR '' '') ?X") simp_all
  also have "\<dots> = map ?cnt (split_on (CHR '' '') s)"
    by (rule count_eq_split_repr [OF q])
  finally show ?thesis .
qed

lemma list_all_one_eq_str_bytes:
  "list_all one_eq (split_on (CHR '' '') (str_bytes s)) = list_all one_eq (split_on (CHR '' '') s)"
proof -
  have "list_all one_eq xs = list_all (\<lambda>n. n = 1) (map (\<lambda>t. count_list t (CHR ''='')) xs)" for xs
    by (simp add: list_all_iff one_eq_def)
  then show ?thesis by (simp only: count_eq_str_bytes)
qed

section \<open>One call on a datagram\<close>

lemma getDiscoveryPacket_Datagram:
  assumes "sock l = Datagram data # rest"
  shows "getDiscoveryPacket l =
     (let plist = split_on CHR '' '' (str_bytes (drop 28 (take 1024 data)));
          pv = fold store (takeWhile one_eq plist) (packet_values l);
          l' = l\<lparr>sock := rest, packet_values := pv\<rparr>
      in if list_all one_eq plist
         then (Inr (Some (fst (FlexRadioDiscoveryPacket pv))), l', snd (FlexRadioDiscoveryPacket pv))
         else (Inl ValueError, l', []))"
  using assms
  by (simp add: getDiscoveryPacket_def parse_loop_general Let_def split: prod.splits)

lemma getDiscoveryPacket_fails_iff:
  assumes "sock l = Datagram data # rest"
  shows "fst (getDiscoveryPacket l) = Inl ValueError \<longleftrightarrow> \<not> list_all one_eq (payload_tokens data)"
  using assms
  by (simp add: getDiscoveryPacket_Datagram Let_def list_all_one_eq_str_bytes payload_tokens_def)

lemma getDiscoveryPacket_returns_iff:
  assumes "sock l = Datagram data # rest"
  shows "(\<exists>p. fst (getDiscoveryPacket l) = Inr (Some p)) \<longleftrightarrow> list_all one_eq (payload_tokens data)"
  using assms
  by (simp add: getDiscoveryPacket_Datagram Let_def list_all_one_eq_str_bytes payload_tokens_def)

section \<open>Writing the same items into the dictionary again\<close>

lemma dict_set_twice: "dict_set k v (dict_set k w d) = dict_set k v d"
  by (induction d) auto

lemma dict_set_swap:
  "k \<noteq> k' \<Longrightarrow> k \<in> fst ` set d \<Longrightarrow>
   dict_set k v (dict_set k' w d) = dict_set k' w (dict_set k v d)"
proof (induction d)
  case Nil
  then show ?case by simp
next
  case (Cons p d)
  show ?case
  proof (cases "fst p = k \<or> fst p = k'")
    case True
    then show ?thesis using Cons.prems(1) by (cases p) auto
  next
    case False
    with Cons.prems have "k \<in> fst ` set d" by auto
    with Cons.IH Cons.prems(1) False show ?thesis by (cases p) simp
  qed
qed

lemma keys_dict_set: "fst ` set (dict_set k v d) = insert k (fst ` set d)"
proof (induction d)
  case Nil
  show ?case by simp
next
  case (Cons p d)
  then show ?case by (cases p) (simp add: insert_commute)
qed

lemma keys_fold_dict_set:
  "fst ` set (fold (\<lambda>x. dict_set (f x) (g x)) xs d) = f ` set xs \<union> fst ` set d"
  by (induction xs arbitrary: d) (auto simp: keys_dict_set)

lemma fold_dict_set_absorb:
  "k \<in> fst ` set d \<Longrightarrow> k \<in> f ` set xs \<Longrightarrow>
   fold (\<lambda>x. dict_set (f x) (g x)) xs (dict_set k v d) = fold (\<lambda>x. dict_set (f x) (g x)) xs d"
proof (induction xs arbitrary: d)
  case Nil
  then show ?case by simp
next
  case (Cons x xs)
  show ?case
  proof (cases "f x = k")
    case True
    then show ?thesis by (simp add: dict_set_twice)
  next
    case False
    with Cons.prems have k: "k \<in> f ` set xs" by auto
    have "dict_set (f x) (g x) (dict_set k v d) = dict_set k v (dict_set (f x) (g x) d)"
      using False Cons.prems(1) dict_set_swap [of k "f x" d v "g x"] by simp
    moreover have "k \<in> fst ` set (dict_set (f x) (g x) d)"
      using Cons.prems(1) by (simp add: keys_dict_set)
    ultimately show ?thesis using Cons.IH [OF _ k] by simp
  qed
qed

lemma fold_dict_set_push:
  "k \<notin> f ` set xs \<Longrightarrow> f ` set xs \<subseteq> fst ` set d \<Longrightarrow>
   fold (\<lambda>x. dict_set (f x) (g x)) xs (dict_set k v d) =
   dict_set k v (fold (\<lambda>x. dict_set (f x) (g x)) xs d)"
proof (induction xs arbitrary: d)
  case Nil
  then show ?case by simp
next
  case (Cons x xs)
  then have ne: "f x \<noteq> k" and inn: "f x \<in> fst ` set d" by auto
  have "dict_set (f x) (g x) (dict_set k v d) = dict_set k v (dict_set (f x) (g x) d)"
    using ne inn dict_set_swap [of "f x" k d "g x" v] by simp
  moreover have "f ` set xs \<subseteq> fst ` set (dict_set (f x) (g x) d)"
    using Cons.prems(2) by (auto simp: keys_dict_set)
  moreover have "k \<notin> f ` set xs" using Cons.prems(1) by auto
  ultimately show ?case using Cons.IH by simp
qed

lemma fold_dict_set_idem:
  "fold (\<lambda>x. dict_set (f x) (g x)) xs (fold (\<lambda>x. dict_set (f x) (g x)) xs d) =
   fold (\<lambda>x. dict_set (f x) (g x)) xs d"
proof (induction xs arbitrary: d rule: rev_induct)
  case Nil
  show ?case by simp
next
  case (snoc x xs)
  let ?F = "fold (\<lambda>x. dict_set (f x) (g x)) xs"
  let ?E = "?F d"
  have keys: "f ` set xs \<subseteq> fst ` set ?E" by (simp add: keys_fold_dict_set)
  have "dict_set (f x) (g x) (?F (dict_set (f x) (g x) ?E)) = dict_set (f x) (g x) ?E"
  proof (cases "f x \<in> f ` set xs")
    case True
    then have "f x \<in> fst ` set ?E" using keys by blast
    then have "?F (dict_set (f x) (g x) ?E) = ?F ?E" using True by (rule fold_dict_set_absorb)
    then show ?thesis by (simp add: snoc.IH)
  next
    case False
    then have "?F (dict_set (f x) (g x) ?E) = dict_set (f x) (g x) (?F ?E)"
      using keys by (rule fold_dict_set_push)
    then show ?thesis by (simp add: snoc.IH dict_set_twice)
  qed
  then show ?case by simp
qed

lemma fold_store_idem: "fold store xs (fold store xs d) = fold store xs d"
proof -
  have eq: "store = (\<lambda>x. dict_set (fix_key (before_eq x)) (after_eq x))"
    by (rule ext)+ (simp add: store_def)
  show ?thesis unfolding eq by (rule fold_dict_set_idem)
qed

section \<open>The constructor of the packet object\<close>

lemma map_of_dict_set: "map_of (dict_set k v d) = (map_of d)(k \<mapsto> v)"
  by (induction d) (auto simp: fun_eq_iff)

lemma keys_list_dict_set:
  "map fst (dict_set k v d) = (if k \<in> fst ` set d then map fst d else map fst d @ [k])"
proof (induction d)
  case Nil
  show ?case by simp
next
  case (Cons p d)
  then show ?case by (cases p) auto
qed

lemma distinct_dict_set:
  "distinct (map fst d) \<Longrightarrow> distinct (map fst (dict_set k v d))"
  by (simp add: keys_list_dict_set)

lemma obj_var_list_init:
  "filter (\<lambda>item. \<not> startswith item ''__'') (py_dir init_attrs) = ''_assignValues'' # schema"
  by code_simp

lemma assign_loop_out:
  "snd (assign_loop ovl items (self, out)) =
     out @ concat (map (\<lambda>(k, v). diag k v) (filter (\<lambda>(k, v). k \<notin> set ovl) items))"
  by (induction items arbitrary: self out) auto

lemma assign_loop_untouched:
  "k \<notin> fst ` set items \<Longrightarrow> map_of (fst (assign_loop ovl items (self, out))) k = map_of self k"
proof (induction items arbitrary: self out)
  case Nil
  show ?case by simp
next
  case (Cons p items)
  obtain k' v' where p: "p = (k', v')" by (cases p)
  with Cons.prems have "k' \<noteq> k" "k \<notin> fst ` set items" by auto
  then show ?case using Cons.IH
    by (simp add: p py_setattr_def map_of_dict_set)
qed

lemma assign_loop_sets:
  "distinct (map fst items) \<Longrightarrow> (k, v) \<in> set items \<Longrightarrow> k \<in> set ovl \<Longrightarrow>
   map_of (fst (assign_loop ovl items (self, out))) k = Some (PStr v)"
proof (induction items arbitrary: self out)
  case Nil
  then show ?case by simp
next
  case (Cons p items)
  obtain k' v' where p: "p = (k', v')" by (cases p)
  show ?case
  proof (cases "(k, v) = (k', v')")
    case True
    with Cons.prems p have "k \<notin> fst ` set items" by auto
    then show ?thesis using True Cons.prems(3)
      by (simp add: p assign_loop_untouched py_setattr_def map_of_dict_set)
  next
    case False
    with Cons.prems p have "(k, v) \<in> set items" "distinct (map fst items)" by auto
    then show ?thesis using Cons.IH Cons.prems(3) by (simp add: p)
  qed
qed

lemma assign_loop_names:
  assumes "set ovl \<subseteq> insert a (fst ` set self)"
  shows "map fst (fst (assign_loop ovl items (self, out))) =
     (if a \<in> fst ` set items \<and> a \<in> set ovl \<and> a \<notin> fst ` set self
      then map fst self @ [a] else map fst self)"
  using assms
proof (induction items arbitrary: self out)
  case Nil
  show ?case by simp
next
  case (Cons p items)
  obtain k v where p: "p = (k, v)" by (cases p)
  show ?case
  proof (cases "k \<in> set ovl")
    case False
    then show ?thesis using Cons.IH [OF Cons.prems] by (auto simp: p)
  next
    case True
    let ?self = "py_setattr self k (PStr v)"
    have sub: "set ovl \<subseteq> insert a (fst ` set ?self)"
      using Cons.prems by (auto simp: py_setattr_def keys_dict_set)
    show ?thesis
    proof (cases "k \<in> fst ` set self")
      case kin: True
      then have "map fst ?self = map fst self" by (simp add: py_setattr_def keys_list_dict_set)
      moreover have "fst ` set ?self = fst ` set self"
        using kin by (auto simp: py_setattr_def keys_dict_set)
      ultimately show ?thesis using Cons.IH [OF sub, of out] True kin by (auto simp: p)
    next
      case kout: False
      with True Cons.prems have ka: "k = a" by auto
      have "map fst ?self = map fst self @ [a]"
        using kout ka by (simp add: py_setattr_def keys_list_dict_set)
      moreover have "a \<in> fst ` set ?self" by (simp add: ka py_setattr_def keys_dict_set)
      ultimately show ?thesis using Cons.IH [OF sub, of out] True kout ka by (auto simp: p)
    qed
  qed
qed

lemma FlexRadioDiscoveryPacket_out:
  "snd (FlexRadioDiscoveryPacket pv) =
     concat (map (\<lambda>(k, v). diag k v)
       (filter (\<lambda>(k, v). k \<notin> set (''_assignValues'' # schema)) pv))"
  by (simp only: FlexRadioDiscoveryPacket_def assignValues_def Let_def obj_var_list_init
      assign_loop_out append_Nil)

lemma keys_init_attrs: "map fst init_attrs = schema"
  by (simp add: init_attrs_def comp_def)

lemma FlexRadioDiscoveryPacket_names:
  "map fst (fst (FlexRadioDiscoveryPacket pv)) =
     (if ''_assignValues'' \<in> fst ` set pv then schema @ [''_assignValues''] else schema)"
proof -
  have k: "fst ` set init_attrs = set schema"
    using arg_cong [OF keys_init_attrs, of set] by simp
  have no: "''_assignValues'' \<notin> set schema" by (simp add: schema_def)
  have "set (''_assignValues'' # schema) \<subseteq> insert ''_assignValues'' (fst ` set init_attrs)"
    using k by auto
  from assign_loop_names [OF this, of pv "[]"] show ?thesis
    unfolding FlexRadioDiscoveryPacket_def assignValues_def Let_def obj_var_list_init
    using no by (simp add: k keys_init_attrs)
qed

lemma FlexRadioDiscoveryPacket_sets:
  assumes "distinct (map fst pv)" and "(k, v) \<in> set pv" and "k \<in> set (''_assignValues'' # schema)"
  shows "py_getattr (fst (FlexRadioDiscoveryPacket pv)) k = Inr (PStr v)"
  using assign_loop_sets [OF assms, of init_attrs "[]"]
  by (simp only: FlexRadioDiscoveryPacket_def assignValues_def Let_def obj_var_list_init
      py_getattr_def option.case)

section \<open>The items of a plain payload\<close>

text \<open>For a payload of plain bytes \<open>str()\<close> only adds \<open>b'\<close> in front and \<open>'\<close> behind, so
  the items of \<open>plist\<close> are the tokens, the first with \<open>b'\<close> before it and the last with
  \<open>'\<close> after it.\<close>

lemma repr_byte_plain: "plain_char c \<Longrightarrow> repr_byte (CHR 0x27) c = [c]"
  by (auto simp: plain_char_def repr_byte_def)

lemma concat_repr_plain:
  "list_all plain_char s \<Longrightarrow> concat (map (repr_byte (CHR 0x27)) s) = s"
  by (induction s) (simp_all add: repr_byte_plain)

lemma str_bytes_plain:
  assumes "list_all plain_char s"
  shows "str_bytes s = [CHR ''b'', CHR 0x27] @ s @ [CHR 0x27]"
proof -
  have "CHR 0x27 \<notin> set s" using assms by (auto simp: list_all_iff plain_char_def)
  then have "bytes_quote s = CHR 0x27" by (simp add: bytes_quote_def)
  then show ?thesis using assms by (simp add: str_bytes_def concat_repr_plain)
qed

lemma split_on_suffix:
  "sep \<notin> set suf \<Longrightarrow>
   split_on sep (s @ suf) = butlast (split_on sep s) @ [last (split_on sep s) @ suf]"
proof (induction s)
  case Nil
  then show ?case by (simp add: split_on_no_sep)
next
  case (Cons c s)
  let ?T = "split_on sep s"
  obtain w ws where T: "?T = w # ws" using split_on_not_Nil [of sep s] by (cases ?T) auto
  show ?case
  proof (cases "c = sep")
    case True
    then show ?thesis using Cons T by simp
  next
    case False
    then show ?thesis using Cons T by (cases ws) simp_all
  qed
qed

lemma split_on_chars: "t \<in> set (split_on sep s) \<Longrightarrow> set t \<subseteq> set s"
proof (induction s arbitrary: t)
  case Nil
  then show ?case by simp
next
  case (Cons c s)
  obtain w ws where T: "split_on sep s = w # ws"
    using split_on_not_Nil [of sep s] by (cases "split_on sep s") auto
  then have "set w \<subseteq> set s" "\<And>u. u \<in> set ws \<Longrightarrow> set u \<subseteq> set s"
    using Cons.IH by auto
  then show ?case using Cons.prems T by (auto split: if_splits)
qed

lemma contains_bq_quote: "contains_bq key \<Longrightarrow> CHR 0x27 \<in> set key"
  by (induction key rule: contains_bq.induct) auto

lemma replace_bq_no_quote: "CHR 0x27 \<notin> set key \<Longrightarrow> replace_bq key = key"
  by (induction key rule: replace_bq.induct) auto

lemma fix_key_no_quote: "CHR 0x27 \<notin> set key \<Longrightarrow> fix_key key = key"
  using contains_bq_quote [of key] by (auto simp: fix_key_def)

lemma fix_key_first: "CHR 0x27 \<notin> set key \<Longrightarrow> fix_key ([CHR ''b'', CHR 0x27] @ key) = key"
  by (simp add: fix_key_def replace_bq_no_quote)

lemma one_eq_has_eq:
  assumes "one_eq t"
  shows "CHR ''='' \<in> set t"
proof (rule ccontr)
  assume "CHR ''='' \<notin> set t"
  then have "count_list t CHR ''='' = 0" by (simp add: count_list_0_iff)
  with assms show False by (simp add: one_eq_def)
qed

lemma before_eq_prefix: "CHR ''='' \<notin> set pre \<Longrightarrow> before_eq (pre @ t) = pre @ before_eq t"
  unfolding before_eq_def by (induction pre) auto

lemma after_eq_prefix: "CHR ''='' \<notin> set pre \<Longrightarrow> after_eq (pre @ t) = after_eq t"
  unfolding after_eq_def by (induction pre) auto

lemma before_eq_suffix: "CHR ''='' \<in> set t \<Longrightarrow> before_eq (t @ suf) = before_eq t"
  unfolding before_eq_def by (induction t) auto

lemma before_eq_chars: "set (before_eq t) \<subseteq> set t"
  by (auto simp: before_eq_def dest: set_takeWhileD)

lemma after_eq_suffix: "CHR ''='' \<in> set t \<Longrightarrow> after_eq (t @ suf) = after_eq t @ suf"
  unfolding after_eq_def by (induction t) auto

text \<open>The items of plist for a plain text, against the tokens of the text.\<close>

lemma plist_plain_form:
  assumes "list_all plain_char s"
  shows "split_on CHR '' '' (str_bytes s) =
     ([CHR ''b'', CHR 0x27] @
        hd (butlast (split_on CHR '' '' s) @ [last (split_on CHR '' '' s) @ [CHR 0x27]])) #
     tl (butlast (split_on CHR '' '' s) @ [last (split_on CHR '' '' s) @ [CHR 0x27]])"
proof -
  have X: "split_on CHR '' '' (s @ [CHR 0x27]) =
      butlast (split_on CHR '' '' s) @ [last (split_on CHR '' '' s) @ [CHR 0x27]]"
    by (rule split_on_suffix) simp
  show ?thesis
    unfolding str_bytes_plain [OF assms] X [symmetric]
    by (rule split_on_prefix) simp
qed

lemma plist_plain_length:
  assumes "list_all plain_char s"
  shows "length (split_on CHR '' '' (str_bytes s)) = length (split_on CHR '' '' s)"
  unfolding plist_plain_form [OF assms]
  using split_on_not_Nil [of "CHR '' ''" s] by (simp del: butlast.simps)

lemma plist_plain_nth:
  assumes plain: "list_all plain_char s"
    and j: "j < length (split_on CHR '' '' s)"
  shows "split_on CHR '' '' (str_bytes s) ! j =
           (if j = 0 then [CHR ''b'', CHR 0x27] else []) @ split_on CHR '' '' s ! j @
           (if Suc j = length (split_on CHR '' '' s) then [CHR 0x27] else [])"
proof -
  let ?T = "split_on CHR '' '' s"
  let ?X = "butlast ?T @ [last ?T @ [CHR 0x27]]"
  have T: "?T \<noteq> []" by (rule split_on_not_Nil)
  have P: "split_on CHR '' '' (str_bytes s) = ([CHR ''b'', CHR 0x27] @ hd ?X) # tl ?X"
    using plain by (rule plist_plain_form)
  have lenX: "length ?X = length ?T" using T by simp
  have Xn: "?X ! i = ?T ! i @ (if Suc i = length ?T then [CHR 0x27] else [])"
    if "i < length ?T" for i
  proof (cases "Suc i = length ?T")
    case True
    then have i: "length ?T - 1 = i" by simp
    have "i = length (butlast ?T)" using True by simp
    then have "?X ! i = last ?T @ [CHR 0x27]" by (simp only: nth_append_length)
    moreover have "last ?T = ?T ! i" using last_conv_nth [OF T] i by simp
    ultimately show ?thesis using True by simp
  next
    case False
    with that have "i < length (butlast ?T)" by simp
    then have "?X ! i = ?T ! i" by (simp add: nth_append nth_butlast)
    then show ?thesis using False by simp
  qed
  have Xne: "?X \<noteq> []" by simp
  show ?thesis
  proof (cases j)
    case 0
    have "hd ?X = ?X ! 0" using Xne by (rule hd_conv_nth)
    then show ?thesis unfolding P using 0 Xn [of 0] j by simp
  next
    case (Suc i)
    have "tl ?X ! i = ?X ! Suc i" using Suc j lenX by (simp add: nth_tl del: butlast.simps)
    then show ?thesis unfolding P using Suc Xn [of j] j by simp
  qed
qed

section \<open>What the dictionary holds after the loop\<close>

lemma plist_plain_key:
  assumes plain: "list_all plain_char s"
    and one: "list_all one_eq (split_on CHR '' '' s)"
    and j: "j < length (split_on CHR '' '' s)"
  shows "fix_key (before_eq (split_on CHR '' '' (str_bytes s) ! j)) =
         before_eq (split_on CHR '' '' s ! j)"
proof -
  let ?t = "split_on CHR '' '' s ! j"
  have t: "?t \<in> set (split_on CHR '' '' s)" using j by simp
  then have eq: "CHR ''='' \<in> set ?t" using one by (auto simp: list_all_iff intro: one_eq_has_eq)
  have "set ?t \<subseteq> set s" using t by (rule split_on_chars)
  then have "CHR 0x27 \<notin> set ?t" using plain by (auto simp: list_all_iff plain_char_def)
  then have q: "CHR 0x27 \<notin> set (before_eq ?t)" using before_eq_chars [of ?t] by blast
  have b: "before_eq (pre @ ?t @ suf) = pre @ before_eq ?t" if "CHR ''='' \<notin> set pre" for pre suf
    using that eq by (simp add: before_eq_prefix before_eq_suffix)
  show ?thesis
  proof (cases "j = 0")
    case True
    then show ?thesis
      unfolding plist_plain_nth [OF plain j]
      using b [of "[CHR ''b'', CHR 0x27]"] fix_key_first [OF q] by simp
  next
    case False
    then show ?thesis
      unfolding plist_plain_nth [OF plain j]
      using b [of "[]"] fix_key_no_quote [OF q] by simp
  qed
qed

lemma plist_plain_value:
  assumes plain: "list_all plain_char s"
    and j: "Suc j < length (split_on CHR '' '' s)"
  shows "after_eq (split_on CHR '' '' (str_bytes s) ! j) = after_eq (split_on CHR '' '' s ! j)"
proof -
  have j': "j < length (split_on CHR '' '' s)" using j by simp
  have "after_eq ([CHR ''b'', CHR 0x27] @ t) = after_eq t" for t
    by (rule after_eq_prefix) simp
  then show ?thesis
    unfolding plist_plain_nth [OF plain j'] using j by simp
qed

lemma map_of_fold_dict_set:
  "map_of (fold (\<lambda>x. dict_set (f x) (g x)) xs d) =
   map_of d ++ map_of (rev (map (\<lambda>x. (f x, g x)) xs))"
proof (induction xs arbitrary: d)
  case Nil
  show ?case by simp
next
  case (Cons x xs)
  have "map_of (fold (\<lambda>x. dict_set (f x) (g x)) (x # xs) d) =
        (map_of d)(f x \<mapsto> g x) ++ map_of (rev (map (\<lambda>x. (f x, g x)) xs))"
    by (simp only: fold_simps Cons.IH map_of_dict_set)
  also have "\<dots> = map_of d ++ map_of (rev (map (\<lambda>x. (f x, g x)) (x # xs)))"
    by (auto simp: fun_eq_iff map_add_def split: option.splits)
  finally show ?case .
qed

lemma distinct_fold_dict_set:
  "distinct (map fst d) \<Longrightarrow> distinct (map fst (fold (\<lambda>x. dict_set (f x) (g x)) xs d))"
  by (induction xs arbitrary: d) (simp_all add: distinct_dict_set)

lemma map_of_rev_last:
  assumes i: "i < length xs"
    and k: "f (xs ! i) = k"
    and later: "\<forall>j. i < j \<and> j < length xs \<longrightarrow> f (xs ! j) \<noteq> k"
  shows "map_of (rev (map (\<lambda>x. (f x, g x)) xs)) k = Some (g (xs ! i))"
proof -
  let ?h = "\<lambda>x. (f x, g x)"
  let ?A = "drop (Suc i) xs"
  have xs: "xs = take i xs @ xs ! i # ?A" using i by (rule id_take_nth_drop)
  have "k \<notin> f ` set ?A"
  proof
    assume "k \<in> f ` set ?A"
    then obtain y where y: "y \<in> set ?A" "f y = k" by auto
    then obtain m where m: "m < length ?A" "?A ! m = y" by (auto simp: in_set_conv_nth)
    then have b: "Suc i + m < length xs" and e: "xs ! (Suc i + m) = y" by auto
    have "i < Suc i + m" by simp
    with later b have "f (xs ! (Suc i + m)) \<noteq> k" by blast
    with e y show False by simp
  qed
  then have no: "map_of (rev (map ?h ?A)) k = None"
    by (auto simp: map_of_eq_None_iff image_iff)
  have "rev (map ?h xs) = rev (map ?h ?A) @ (k, g (xs ! i)) # rev (map ?h (take i xs))"
    using arg_cong [OF xs, of "\<lambda>l. rev (map ?h l)"] k by simp
  then show ?thesis using no by (simp add: map_add_def)
qed

lemma distinct_packet_values_kept:
  assumes "distinct (map fst (packet_values l))"
  shows "distinct (map fst (packet_values (fst (snd (getDiscoveryPacket l)))))"
proof (cases "sock l")
  case Nil
  then show ?thesis using assms by (simp add: getDiscoveryPacket_def)
next
  case (Cons e es)
  show ?thesis
  proof (cases e)
    case NoDatagram
    then show ?thesis using Cons assms by (simp add: getDiscoveryPacket_def)
  next
    case RecvError
    then show ?thesis using Cons assms by (simp add: getDiscoveryPacket_def)
  next
    case (Datagram data)
    have st: "store = (\<lambda>x. dict_set (fix_key (before_eq x)) (after_eq x))"
      by (rule ext)+ (simp add: store_def)
    from Datagram Cons have "sock l = Datagram data # es" by simp
    from getDiscoveryPacket_Datagram [OF this] show ?thesis
      using distinct_fold_dict_set [OF assms] by (simp add: Let_def st)
  qed
qed

lemma plist_keys:
  assumes plain: "list_all plain_char s"
    and one: "list_all one_eq (split_on CHR '' '' s)"
  shows "(\<lambda>x. fix_key (before_eq x)) ` set (split_on CHR '' '' (str_bytes s)) =
         before_eq ` set (split_on CHR '' '' s)"
proof -
  let ?plist = "split_on CHR '' '' (str_bytes s)"
  let ?toks = "split_on CHR '' '' s"
  have len: "length ?plist = length ?toks" using plain by (rule plist_plain_length)
  have "(\<lambda>x. fix_key (before_eq x)) ` set ?plist =
        {fix_key (before_eq (?plist ! j)) | j. j < length ?plist}"
    by (auto simp: set_conv_nth)
  also have "\<dots> = {before_eq (?toks ! j) | j. j < length ?toks}"
    using plist_plain_key [OF plain one] len by (auto, metis)
  also have "\<dots> = before_eq ` set ?toks"
    by (auto simp: set_conv_nth)
  finally show ?thesis .
qed

lemma stored_last_value:
  assumes plain: "list_all plain_char s"
    and one: "list_all one_eq (split_on CHR '' '' s)"
    and i: "Suc i < length (split_on CHR '' '' s)"
    and later: "\<forall>j. i < j \<and> j < length (split_on CHR '' '' s) \<longrightarrow>
                  before_eq (split_on CHR '' '' s ! j) \<noteq> before_eq (split_on CHR '' '' s ! i)"
  shows "map_of (fold (\<lambda>x. dict_set (fix_key (before_eq x)) (after_eq x))
                   (split_on CHR '' '' (str_bytes s)) d)
           (before_eq (split_on CHR '' '' s ! i)) =
         Some (after_eq (split_on CHR '' '' s ! i))"
proof -
  let ?toks = "split_on CHR '' '' s"
  let ?plist = "split_on CHR '' '' (str_bytes s)"
  let ?f = "\<lambda>x. fix_key (before_eq x)"
  let ?k = "before_eq (?toks ! i)"
  have len: "length ?plist = length ?toks" using plain by (rule plist_plain_length)
  have i'': "i < length ?toks" using i by simp
  have i': "i < length ?plist" using i'' len by simp
  have k1: "?f (?plist ! i) = ?k" using plain one i'' by (rule plist_plain_key)
  have k2: "\<forall>j. i < j \<and> j < length ?plist \<longrightarrow> ?f (?plist ! j) \<noteq> ?k"
  proof (intro allI impI)
    fix j assume j: "i < j \<and> j < length ?plist"
    then have "j < length ?toks" using len by simp
    from plist_plain_key [OF plain one this] later j len
    show "?f (?plist ! j) \<noteq> ?k" by simp
  qed
  have "map_of (rev (map (\<lambda>x. (?f x, after_eq x)) ?plist)) ?k = Some (after_eq (?plist ! i))"
    using i' k1 k2 by (rule map_of_rev_last)
  moreover have "after_eq (?plist ! i) = after_eq (?toks ! i)"
    using plain i by (rule plist_plain_value)
  ultimately show ?thesis by (simp add: map_of_fold_dict_set map_add_def)
qed

lemma keys_filter: "fst ` set (filter (\<lambda>(k, v). P k) d) = {k \<in> fst ` set d. P k}"
  by (induction d) auto

lemma distinct_keys_filter:
  "distinct (map fst d) \<Longrightarrow> distinct (map fst (filter (\<lambda>(k, v). P k) d))"
  by (induction d) (auto simp: keys_filter)

text \<open>
  Last occurrence wins.  A datagram is received whose payload is plain text with exactly
  one \<open>=\<close> in every token, by a listener whose dictionary has no key twice.  Then the
  call returns a record; and when the last token with the known key \<open>k\<close> is not the
  final token of the payload, the record's field \<open>k\<close> is the value of that token.
\<close>

lemma last_occurrence_wins:
  assumes sock: "sock l = Datagram data # rest"
    and dict: "distinct (map fst (packet_values l))"
    and plain: "list_all plain_char (drop 28 (take 1024 data))"
    and one: "list_all one_eq (payload_tokens data)"
    and known: "k \<in> set schema"
    and i: "i < length (payload_tokens data)"
    and key: "before_eq (payload_tokens data ! i) = k"
    and later: "\<forall>j. i < j \<and> j < length (payload_tokens data) \<longrightarrow>
                  before_eq (payload_tokens data ! j) \<noteq> k"
  shows "\<exists>p. fst (getDiscoveryPacket l) = Inr (Some p) \<and>
             (Suc i < length (payload_tokens data) \<longrightarrow>
                py_getattr p k = Inr (PStr (after_eq (payload_tokens data ! i))))"
proof -
  let ?s = "drop 28 (take 1024 data)"
  let ?toks = "split_on CHR '' '' ?s"
  let ?plist = "split_on CHR '' '' (str_bytes ?s)"
  let ?f = "\<lambda>x. fix_key (before_eq x)"
  let ?pv = "fold (\<lambda>x. dict_set (?f x) (after_eq x)) ?plist (packet_values l)"
  have toks: "payload_tokens data = ?toks" by (simp add: payload_tokens_def)
  have len: "length ?plist = length ?toks" using plain by (rule plist_plain_length)
  have good: "list_all one_eq ?plist"
    using one by (simp add: toks list_all_one_eq_str_bytes)
  then have tw: "takeWhile one_eq ?plist = ?plist"
    by (simp add: takeWhile_eq_all_conv list_all_iff)
  have st: "store = (\<lambda>x. dict_set (?f x) (after_eq x))"
    by (rule ext)+ (simp add: store_def)
  have res: "fst (getDiscoveryPacket l) = Inr (Some (fst (FlexRadioDiscoveryPacket ?pv)))"
    using good by (simp add: getDiscoveryPacket_Datagram [OF sock] Let_def tw st)
  have "py_getattr (fst (FlexRadioDiscoveryPacket ?pv)) k = Inr (PStr (after_eq (?toks ! i)))"
    if inner: "Suc i < length ?toks"
  proof -
    have i'': "i < length ?toks" using i toks by simp
    have i': "i < length ?plist" using i'' len by simp
    have k1: "?f (?plist ! i) = k"
      using plist_plain_key [OF plain one [unfolded toks] i''] key toks by simp
    have k2: "\<forall>j. i < j \<and> j < length ?plist \<longrightarrow> ?f (?plist ! j) \<noteq> k"
    proof (intro allI impI)
      fix j assume j: "i < j \<and> j < length ?plist"
      then have "j < length ?toks" using len by simp
      from plist_plain_key [OF plain one [unfolded toks] this] later j len toks
      show "?f (?plist ! j) \<noteq> k" by simp
    qed
    have "map_of (rev (map (\<lambda>x. (?f x, after_eq x)) ?plist)) k = Some (after_eq (?plist ! i))"
      using i' k1 k2 by (rule map_of_rev_last)
    moreover have "after_eq (?plist ! i) = after_eq (?toks ! i)"
      using plain inner by (rule plist_plain_value)
    ultimately have "map_of ?pv k = Some (after_eq (?toks ! i))"
      by (simp add: map_of_fold_dict_set map_add_def)
    then have mem: "(k, after_eq (?toks ! i)) \<in> set ?pv" by (rule map_of_SomeD)
    have "distinct (map fst ?pv)" using dict by (rule distinct_fold_dict_set)
    from FlexRadioDiscoveryPacket_sets [OF this mem] known show ?thesis by simp
  qed
  with res show ?thesis by (simp add: toks)
qed

text \<open>
  The text \<open>str()\<close> makes of the bytes shows in what is printed, and so does what earlier
  datagrams left in the dictionary: the value of the final token has the closing quote;
  with a \<open>'\<close> in the payload the first key starts with \<open>b"\<close>; and a second call prints the
  unknown key of the first datagram again.
\<close>

lemma report_artefacts:
  "snd (snd (getDiscoveryPacket (default_listener
      [Datagram (zero_header @ ''model=FLEX-6600 foo=bar'')]))) =
     [''New values found in discovery packet that do not match DiscoveryPacket class'',
      ''Attribute: foo - Value: bar'' @ [CHR 0x27]] \<and>
   snd (snd (getDiscoveryPacket (default_listener
      [Datagram (zero_header @ ''foo=it'' @ [CHR 0x27] @ ''s model=FLEX-6600'')]))) =
     [''New values found in discovery packet that do not match DiscoveryPacket class'',
      ''Attribute: b'' @ [CHR 0x22] @ ''foo - Value: it'' @ [CHR 0x27] @ ''s''] \<and>
   snd (snd (getDiscoveryPacket (fst (snd (getDiscoveryPacket (default_listener
      [Datagram (zero_header @ ''foo=bar model=FLEX-6600''),
       Datagram (zero_header @ ''serial=1234-5678 model=FLEX-6600'')])))))) =
     [''New values found in discovery packet that do not match DiscoveryPacket class'',
      ''Attribute: foo - Value: bar'']"
  by code_simp

section \<open>The constructor and the calls that receive no datagram\<close>

lemma default_listener_constructed:
  "FlexRadioDiscoveryListener ''0.0.0.0'' 4992 3 (willing_host events) =
     Inr (default_listener events)"
  by (simp add: FlexRadioDiscoveryListener_def default_listener_def willing_host_def)

text \<open>Every call makes one \<open>recvfrom\<close>: it takes one event from the network, whatever the
  event and whatever comes of the decoding.\<close>

lemma one_receive_per_call: "sock (fst (snd (getDiscoveryPacket l))) = tl (sock l)"
proof (cases "sock l")
  case Nil
  then show ?thesis by (simp add: getDiscoveryPacket_def)
next
  case (Cons e es)
  then show ?thesis
    by (cases e) (simp_all add: getDiscoveryPacket_def Let_def split: prod.splits option.splits)
qed

text \<open>With a timeout other than 0, a call that receives nothing returns \<open>None\<close>.\<close>

lemma timeout_gives_None:
  assumes "sock_timeout l \<noteq> 0" and "sock l = [] \<or> hd (sock l) = NoDatagram"
  shows "getDiscoveryPacket l = (Inr None, l\<lparr>sock := tl (sock l)\<rparr>, [])"
proof (cases "sock l")
  case Nil
  then show ?thesis using assms by (simp add: getDiscoveryPacket_def)
next
  case (Cons e es)
  with assms have "e = NoDatagram" by simp
  then show ?thesis using Cons assms by (simp add: getDiscoveryPacket_def)
qed

section \<open>Properties of the listener and the decoder\<close>

text \<open>
  C1.  Two datagrams are received in turn; the second one carries \<open>model\<close> only.  Both
  calls return a record, and the second record has the \<open>serial\<close> of the first datagram:
  \<open>self._packet_values\<close> is created once, in the listener's \<open>__init__\<close>, and is never
  emptied.
\<close>

theorem C1_second_record_keeps_first_serial:
  "fst (getDiscoveryPacket two_radios) =
     Inr (Some
      [(''requires_additional_license'', PNone), (''nickname'', PNone),
       (''version'', PNone), (''discovery_protocol_version'', PNone),
       (''inuse_ip'', PNone), (''model'', PStr (''FLEX-6600'' @ [CHR 0x27])),
       (''max_licensed_version'', PNone), (''serial'', PStr ''1234-5678''),
       (''inuse_host'', PNone), (''port'', PNone), (''radio_license_id'', PNone),
       (''ip'', PNone), (''status'', PNone), (''callsign'', PNone), (''fpc_mac'', PNone)]) \<and>
   fst (getDiscoveryPacket (fst (snd (getDiscoveryPacket two_radios)))) =
     Inr (Some
      [(''requires_additional_license'', PNone), (''nickname'', PNone),
       (''version'', PNone), (''discovery_protocol_version'', PNone),
       (''inuse_ip'', PNone), (''model'', PStr (''FLEX-6400'' @ [CHR 0x27])),
       (''max_licensed_version'', PNone), (''serial'', PStr ''1234-5678''),
       (''inuse_host'', PNone), (''port'', PNone), (''radio_license_id'', PNone),
       (''ip'', PNone), (''status'', PNone), (''callsign'', PNone), (''fpc_mac'', PNone)])"
  by code_simp

text \<open>
  C2.  On a fresh listener the datagram
  \<open>b"\x00"*28 + b"model=FLEX-6600 serial=1234-5678 status=Available callsign=N0CALL"\<close>
  is decoded to a record whose \<open>model\<close>, \<open>serial\<close> and \<open>status\<close> are as sent and whose
  other fields are \<open>None\<close>, with nothing printed; but \<open>callsign\<close> is \<open>N0CALL'\<close>: the
  closing quote of the text \<open>str()\<close> makes of the bytes stays on the last value.
\<close>

theorem C2_callsign_keeps_closing_quote:
  "getDiscoveryPacket (default_listener
     [Datagram (zero_header @
        ''model=FLEX-6600 serial=1234-5678 status=Available callsign=N0CALL'')]) =
   (Inr (Some
      [(''requires_additional_license'', PNone), (''nickname'', PNone),
       (''version'', PNone), (''discovery_protocol_version'', PNone),
       (''inuse_ip'', PNone), (''model'', PStr ''FLEX-6600''),
       (''max_licensed_version'', PNone), (''serial'', PStr ''1234-5678''),
       (''inuse_host'', PNone), (''port'', PNone), (''radio_license_id'', PNone),
       (''ip'', PNone), (''status'', PStr ''Available''),
       (''callsign'', PStr (''N0CALL'' @ [CHR 0x27])), (''fpc_mac'', PNone)]),
    \<lparr>sock_timeout = 3, sock = [],
     packet_values =
       [(''model'', ''FLEX-6600''), (''serial'', ''1234-5678''),
        (''status'', ''Available''), (''callsign'', ''N0CALL'' @ [CHR 0x27])]\<rparr>,
    [])"
  by code_simp

text \<open>
  C3 (as amended).  The first datagram a listener receives (its dictionary is still empty)
  has a payload of plain text with exactly one \<open>=\<close> in every token.  Then the call
  returns a record, and the record has no collection of unrecognized fields: its
  attributes are exactly the 15 fields, with \<open>_assignValues\<close> added when a token has that
  key.  The keys of the payload that are not attribute names are printed instead: the
  two lines are printed once for each such key and for no other key; and for a key whose
  last token is not the final token of the payload, they carry the value of that token.
\<close>

theorem C3_unknown_keys_are_printed_not_kept:
  assumes sock: "sock l = Datagram data # rest"
    and fresh: "packet_values l = []"
    and plain: "list_all plain_char (drop 28 (take 1024 data))"
    and one: "list_all one_eq (payload_tokens data)"
  shows "\<exists>p l' U.
     getDiscoveryPacket l =
       (Inr (Some p), l',
        concat (map (\<lambda>(k, v).
          [''New values found in discovery packet that do not match DiscoveryPacket class'',
           ''Attribute: '' @ k @ '' - Value: '' @ v]) U)) \<and>
     map fst p =
       (if ''_assignValues'' \<in> before_eq ` set (payload_tokens data)
        then schema @ [''_assignValues''] else schema) \<and>
     distinct (map fst U) \<and>
     fst ` set U =
       {k \<in> before_eq ` set (payload_tokens data). k \<notin> set (''_assignValues'' # schema)} \<and>
     (\<forall>i. Suc i < length (payload_tokens data) \<and>
          before_eq (payload_tokens data ! i) \<notin> set (''_assignValues'' # schema) \<and>
          (\<forall>j. i < j \<and> j < length (payload_tokens data) \<longrightarrow>
               before_eq (payload_tokens data ! j) \<noteq> before_eq (payload_tokens data ! i))
        \<longrightarrow> (before_eq (payload_tokens data ! i), after_eq (payload_tokens data ! i)) \<in> set U)"
proof -
  let ?s = "drop 28 (take 1024 data)"
  let ?toks = "split_on CHR '' '' ?s"
  let ?plist = "split_on CHR '' '' (str_bytes ?s)"
  let ?f = "\<lambda>x. fix_key (before_eq x)"
  let ?pv = "fold (\<lambda>x. dict_set (?f x) (after_eq x)) ?plist []"
  let ?U = "filter (\<lambda>(k, v). k \<notin> set (''_assignValues'' # schema)) ?pv"
  let ?l' = "l\<lparr>sock := rest, packet_values := ?pv\<rparr>"
  have toks: "payload_tokens data = ?toks" by (simp add: payload_tokens_def)
  have one': "list_all one_eq ?toks" using one by (simp add: toks)
  have good: "list_all one_eq ?plist" using one' by (simp add: list_all_one_eq_str_bytes)
  then have tw: "takeWhile one_eq ?plist = ?plist"
    by (simp add: takeWhile_eq_all_conv list_all_iff)
  have st: "store = (\<lambda>x. dict_set (?f x) (after_eq x))"
    by (rule ext)+ (simp add: store_def)
  have keys: "fst ` set ?pv = before_eq ` set ?toks"
    using plist_keys [OF plain one'] by (simp add: keys_fold_dict_set)
  have dist: "distinct (map fst ?pv)" by (rule distinct_fold_dict_set) simp
  have res: "getDiscoveryPacket l =
      (Inr (Some (fst (FlexRadioDiscoveryPacket ?pv))), ?l',
       concat (map (\<lambda>(k, v). diag k v) ?U))"
    using good
    by (simp add: getDiscoveryPacket_Datagram [OF sock] Let_def tw st fresh
        FlexRadioDiscoveryPacket_out)
  have d: "(\<lambda>(k, v). diag k v) = (\<lambda>(k, v).
          [''New values found in discovery packet that do not match DiscoveryPacket class'',
           ''Attribute: '' @ k @ '' - Value: '' @ v])"
    by (simp add: diag_def)
  have names: "map fst (fst (FlexRadioDiscoveryPacket ?pv)) =
       (if ''_assignValues'' \<in> before_eq ` set ?toks
        then schema @ [''_assignValues''] else schema)"
    by (simp only: FlexRadioDiscoveryPacket_names keys)
  have dU: "distinct (map fst ?U)" using dist by (rule distinct_keys_filter)
  have kU: "fst ` set ?U =
       {k \<in> before_eq ` set ?toks. k \<notin> set (''_assignValues'' # schema)}"
    by (simp only: keys_filter keys)
  have vU: "(before_eq (?toks ! i), after_eq (?toks ! i)) \<in> set ?U"
    if "Suc i < length ?toks"
      and "before_eq (?toks ! i) \<notin> set (''_assignValues'' # schema)"
      and "\<forall>j. i < j \<and> j < length ?toks \<longrightarrow> before_eq (?toks ! j) \<noteq> before_eq (?toks ! i)"
    for i
  proof -
    have "map_of ?pv (before_eq (?toks ! i)) = Some (after_eq (?toks ! i))"
      using plain one' that(1) that(3) by (rule stored_last_value)
    then have "(before_eq (?toks ! i), after_eq (?toks ! i)) \<in> set ?pv" by (rule map_of_SomeD)
    then show ?thesis using that(2) by simp
  qed
  show ?thesis
    unfolding toks
    apply (rule exI [of _ "fst (FlexRadioDiscoveryPacket ?pv)"])
    apply (rule exI [of _ ?l'])
    apply (rule exI [of _ ?U])
    using res names dU kU vU unfolding d by blast
qed

theorem C3_witness:
  "\<exists>p l' U.
     getDiscoveryPacket (default_listener [Datagram unknown_keys_payload]) =
       (Inr (Some p), l',
        concat (map (\<lambda>(k, v).
          [''New values found in discovery packet that do not match DiscoveryPacket class'',
           ''Attribute: '' @ k @ '' - Value: '' @ v]) U)) \<and>
     map fst p = schema \<and> distinct (map fst U) \<and>
     fst ` set U = {''foo'', ''x'', ''y''} \<and> (''foo'', ''baz'') \<in> set U \<and> (''x'', ''1'') \<in> set U"
proof -
  let ?l = "default_listener [Datagram unknown_keys_payload]"
  let ?toks = "[''foo=bar'', ''serial=1234-5678'', ''x=1'', ''foo=baz'', ''y=2'']"
  let ?known = "set (''_assignValues'' # schema)"
  let ?G = "\<lambda>p l' U. getDiscoveryPacket ?l =
       (Inr (Some p), l',
        concat (map (\<lambda>(k, v).
          [''New values found in discovery packet that do not match DiscoveryPacket class'',
           ''Attribute: '' @ k @ '' - Value: '' @ v]) U))"
  let ?N = "\<lambda>p. map fst p =
       (if ''_assignValues'' \<in> before_eq ` set ?toks then schema @ [''_assignValues''] else schema)"
  let ?K = "\<lambda>U. fst ` set U = {k \<in> before_eq ` set ?toks. k \<notin> ?known}"
  let ?V = "\<lambda>U. \<forall>i. Suc i < length ?toks \<and> before_eq (?toks ! i) \<notin> ?known \<and>
          (\<forall>j. i < j \<and> j < length ?toks \<longrightarrow> before_eq (?toks ! j) \<noteq> before_eq (?toks ! i))
        \<longrightarrow> (before_eq (?toks ! i), after_eq (?toks ! i)) \<in> set U"
  have sock: "sock ?l = Datagram unknown_keys_payload # []" by (simp add: default_listener_def)
  have fresh: "packet_values ?l = []" by (simp add: default_listener_def)
  have plain: "list_all plain_char (drop 28 (take 1024 unknown_keys_payload))" by code_simp
  have toks: "payload_tokens unknown_keys_payload = ?toks" by code_simp
  have one: "list_all one_eq (payload_tokens unknown_keys_payload)" by code_simp
  have "\<exists>p l' U. ?G p l' U \<and> ?N p \<and> distinct (map fst U) \<and> ?K U \<and> ?V U"
    using C3_unknown_keys_are_printed_not_kept [OF sock fresh plain one]
    by (simp only: toks)
  then obtain p where "\<exists>l' U. ?G p l' U \<and> ?N p \<and> distinct (map fst U) \<and> ?K U \<and> ?V U" ..
  then obtain l' where "\<exists>U. ?G p l' U \<and> ?N p \<and> distinct (map fst U) \<and> ?K U \<and> ?V U" ..
  then obtain U where H: "?G p l' U \<and> ?N p \<and> distinct (map fst U) \<and> ?K U \<and> ?V U" ..
  from H have g: "?G p l' U" by (rule conjunct1)
  from H have H1: "?N p \<and> distinct (map fst U) \<and> ?K U \<and> ?V U" by (rule conjunct2)
  from H1 have n: "?N p" by (rule conjunct1)
  from H1 have H2: "distinct (map fst U) \<and> ?K U \<and> ?V U" by (rule conjunct2)
  from H2 have d: "distinct (map fst U)" by (rule conjunct1)
  from H2 have H3: "?K U \<and> ?V U" by (rule conjunct2)
  from H3 have k: "?K U" by (rule conjunct1)
  from H3 have v: "?V U" by (rule conjunct2)
  have b: "map before_eq ?toks = [''foo'', ''serial'', ''x'', ''foo'', ''y'']"
    "after_eq ''foo=baz'' = ''baz''" "after_eq ''x=1'' = ''1''"
    by code_simp+
  have bs: "before_eq ` set ?toks = {''foo'', ''serial'', ''x'', ''y''}"
    using arg_cong [OF b(1), of set] by (simp only: set_map) auto
  have kn: "''_assignValues'' \<notin> before_eq ` set ?toks" unfolding bs by simp
  have unk: "''foo'' \<notin> ?known" "''x'' \<notin> ?known" "''y'' \<notin> ?known" "''serial'' \<in> ?known"
    by code_simp+
  have n': "map fst p = schema" using n kn by (simp only: if_False)
  have k': "fst ` set U = {''foo'', ''x'', ''y''}"
    unfolding k bs using unk by auto
  have nth: "before_eq (?toks ! 2) = ''x''" "before_eq (?toks ! 3) = ''foo''"
    "before_eq (?toks ! 4) = ''y''" "after_eq (?toks ! 2) = ''1''" "after_eq (?toks ! 3) = ''baz''"
    by code_simp+
  have later3: "\<forall>j. 3 < j \<and> j < length ?toks \<longrightarrow> before_eq (?toks ! j) \<noteq> before_eq (?toks ! 3)"
  proof (intro allI impI)
    fix j :: nat assume "3 < j \<and> j < length ?toks"
    then have "j = 4" by simp
    then show "before_eq (?toks ! j) \<noteq> before_eq (?toks ! 3)" by (simp only: nth) simp
  qed
  have later2: "\<forall>j. 2 < j \<and> j < length ?toks \<longrightarrow> before_eq (?toks ! j) \<noteq> before_eq (?toks ! 2)"
  proof (intro allI impI)
    fix j :: nat assume "2 < j \<and> j < length ?toks"
    then have "j = 3 \<or> j = 4" by auto
    then show "before_eq (?toks ! j) \<noteq> before_eq (?toks ! 2)"
    proof
      assume "j = 3" then show ?thesis by (simp only: nth) simp
    next
      assume "j = 4" then show ?thesis by (simp only: nth) simp
    qed
  qed
  have l3: "Suc 3 < length ?toks" and l2: "Suc 2 < length ?toks" by simp_all
  have foo: "(''foo'', ''baz'') \<in> set U"
    using v [rule_format, of 3] l3 later3 unk(1) by (simp only: nth) simp
  have x: "(''x'', ''1'') \<in> set U"
    using v [rule_format, of 2] l2 later2 unk(2) by (simp only: nth) simp
  show ?thesis
    apply (rule exI [of _ p])
    apply (rule exI [of _ l'])
    apply (rule exI [of _ U])
    using g n' d k' foo x by (intro conjI)
qed

text \<open>
  C3, counterexample.  For the post-header text \<open>foo=bar model=FLEX-6600\<close> the record
  returned has the 15 fields and nothing else: the pair of \<open>foo\<close> and \<open>bar\<close> is printed,
  no attribute of the record holds it, and reading \<open>foo\<close> raises \<open>AttributeError\<close>.
\<close>

theorem C3_counterexample:
  "getDiscoveryPacket (default_listener
      [Datagram (zero_header @ ''foo=bar model=FLEX-6600'')]) =
   (Inr (Some
      [(''requires_additional_license'', PNone), (''nickname'', PNone),
       (''version'', PNone), (''discovery_protocol_version'', PNone),
       (''inuse_ip'', PNone), (''model'', PStr (''FLEX-6600'' @ [CHR 0x27])),
       (''max_licensed_version'', PNone), (''serial'', PNone),
       (''inuse_host'', PNone), (''port'', PNone), (''radio_license_id'', PNone),
       (''ip'', PNone), (''status'', PNone), (''callsign'', PNone), (''fpc_mac'', PNone)]),
    \<lparr>sock_timeout = 3, sock = [],
     packet_values = [(''foo'', ''bar''), (''model'', ''FLEX-6600'' @ [CHR 0x27])]\<rparr>,
    [''New values found in discovery packet that do not match DiscoveryPacket class'',
     ''Attribute: foo - Value: bar'']) \<and>
   py_getattr
      [(''requires_additional_license'', PNone), (''nickname'', PNone),
       (''version'', PNone), (''discovery_protocol_version'', PNone),
       (''inuse_ip'', PNone), (''model'', PStr (''FLEX-6600'' @ [CHR 0x27])),
       (''max_licensed_version'', PNone), (''serial'', PNone),
       (''inuse_host'', PNone), (''port'', PNone), (''radio_license_id'', PNone),
       (''ip'', PNone), (''status'', PNone), (''callsign'', PNone), (''fpc_mac'', PNone)]
      ''foo'' = Inl AttributeError"
  by code_simp

text \<open>
  C4.  The first datagram has a token without \<open>=\<close> after a good token; the call raises
  \<open>ValueError\<close>, but the good token is already stored in the listener's dictionary.  The
  next call succeeds, and its record has the \<open>model\<close> of the datagram that failed.
\<close>

theorem C4_failed_decode_leaks_into_next_record:
  "getDiscoveryPacket malformed_then_good =
     (Inl ValueError,
      \<lparr>sock_timeout = 3, sock = [Datagram (zero_header @ ''serial=1234-5678 status=Available'')],
       packet_values = [(''model'', ''FLEX-6600'')]\<rparr>,
      []) \<and>
   fst (getDiscoveryPacket (fst (snd (getDiscoveryPacket malformed_then_good)))) =
     Inr (Some
      [(''requires_additional_license'', PNone), (''nickname'', PNone),
       (''version'', PNone), (''discovery_protocol_version'', PNone),
       (''inuse_ip'', PNone), (''model'', PStr ''FLEX-6600''),
       (''max_licensed_version'', PNone), (''serial'', PStr ''1234-5678''),
       (''inuse_host'', PNone), (''port'', PNone), (''radio_license_id'', PNone),
       (''ip'', PNone), (''status'', PStr (''Available'' @ [CHR 0x27])),
       (''callsign'', PNone), (''fpc_mac'', PNone)])"
  by code_simp

text \<open>
  C5 (as amended).  When a datagram is received, \<open>getDiscoveryPacket\<close> raises
  \<open>ValueError\<close> exactly when some token of the payload does not have exactly one \<open>=\<close>,
  and returns a record exactly when every token has one.  So it fails for every payload
  with a token without \<open>=\<close> and for every payload shorter than the 28-byte header (its
  only token is the empty one); it also fails for a token with two or more \<open>=\<close>.
\<close>

theorem C5_fails_iff_token_without_one_eq:
  assumes "sock l = Datagram data # rest"
  shows "(fst (getDiscoveryPacket l) = Inl ValueError
            \<longleftrightarrow> \<not> list_all one_eq (payload_tokens data)) \<and>
         ((\<exists>p. fst (getDiscoveryPacket l) = Inr (Some p))
            \<longleftrightarrow> list_all one_eq (payload_tokens data)) \<and>
         ((\<exists>t \<in> set (payload_tokens data). CHR ''='' \<notin> set t)
            \<longrightarrow> fst (getDiscoveryPacket l) = Inl ValueError) \<and>
         (length data < 28 \<longrightarrow> fst (getDiscoveryPacket l) = Inl ValueError)"
proof -
  have a: "\<not> list_all one_eq (payload_tokens data)"
    if "\<exists>t \<in> set (payload_tokens data). CHR ''='' \<notin> set t"
  proof -
    from that obtain t where t: "t \<in> set (payload_tokens data)" "CHR ''='' \<notin> set t" by blast
    then have "count_list t CHR ''='' = 0" by (simp add: count_list_0_iff)
    then have "\<not> one_eq t" by (simp add: one_eq_def)
    with t show ?thesis by (auto simp: list_all_iff)
  qed
  have b: "\<not> list_all one_eq (payload_tokens data)" if "length data < 28"
    using that by (simp add: payload_tokens_def one_eq_def)
  show ?thesis
    using a b getDiscoveryPacket_fails_iff [OF assms] getDiscoveryPacket_returns_iff [OF assms]
    by blast
qed

theorem C5_witness:
  "fst (getDiscoveryPacket (default_listener [Datagram ''too short''])) = Inl ValueError \<and>
   fst (getDiscoveryPacket (default_listener
      [Datagram (zero_header @ ''model=FLEX-6600 broken serial=1234-5678'')])) = Inl ValueError \<and>
   (\<exists>p. fst (getDiscoveryPacket (default_listener
      [Datagram (zero_header @ ''model=FLEX-6600 serial=1234-5678'')])) = Inr (Some p))"
proof -
  have 1: "\<not> list_all one_eq (payload_tokens ''too short'')" by code_simp
  have 2: "\<not> list_all one_eq
      (payload_tokens (zero_header @ ''model=FLEX-6600 broken serial=1234-5678''))"
    by code_simp
  have 3: "list_all one_eq (payload_tokens (zero_header @ ''model=FLEX-6600 serial=1234-5678''))"
    by code_simp
  show ?thesis
    using 1 2 3
      C5_fails_iff_token_without_one_eq
        [of "default_listener [Datagram ''too short'']" "''too short''" "[]"]
      C5_fails_iff_token_without_one_eq
        [of "default_listener
              [Datagram (zero_header @ ''model=FLEX-6600 broken serial=1234-5678'')]"
            "zero_header @ ''model=FLEX-6600 broken serial=1234-5678''" "[]"]
      C5_fails_iff_token_without_one_eq
        [of "default_listener
              [Datagram (zero_header @ ''model=FLEX-6600 serial=1234-5678'')]"
            "zero_header @ ''model=FLEX-6600 serial=1234-5678''" "[]"]
    by (simp add: default_listener_def)
qed

text \<open>
  C5, counterexample.  Every token of this payload contains a \<open>=\<close> and the payload is
  longer than the header, yet the call raises \<open>ValueError\<close>.
\<close>

theorem C5_counterexample:
  "list_all (\<lambda>t. CHR ''='' \<in> set t) (payload_tokens (zero_header @ ''status=In=Use'')) \<and>
   28 \<le> length (zero_header @ ''status=In=Use'') \<and>
   fst (getDiscoveryPacket (default_listener [Datagram (zero_header @ ''status=In=Use'')]))
     = Inl ValueError"
  by code_simp

text \<open>
  C6 (as amended).  An item with exactly one \<open>=\<close> is split into the text before the \<open>=\<close>
  and the text after it, and the loop goes on to the next item with the pair stored; on
  an item with any other number of \<open>=\<close> the loop stops with \<open>ValueError\<close>.
\<close>

theorem C6_split_when_exactly_one_eq:
  "(one_eq item \<longrightarrow>
      split_on CHR ''='' item = [before_eq item, after_eq item] \<and>
      parse_loop (item # plist) pv =
        parse_loop plist (dict_set (fix_key (before_eq item)) (after_eq item) pv)) \<and>
   (\<not> one_eq item \<longrightarrow> parse_loop (item # plist) pv = (pv, Some ValueError))"
  by (simp add: unpack2_split_one unpack2_split_other)
    (simp add: one_eq_def before_eq_def after_eq_def split_on_one)

theorem C6_witness:
  "one_eq ''ip=10.0.0.7'' \<and>
   split_on CHR ''='' ''ip=10.0.0.7'' = [''ip'', ''10.0.0.7''] \<and>
   parse_loop [''ip=10.0.0.7''] [] = ([(''ip'', ''10.0.0.7'')], None) \<and>
   \<not> one_eq ''nickname'' \<and> parse_loop [''nickname''] [] = ([], Some ValueError)"
proof -
  have 1: "one_eq ''ip=10.0.0.7''" by code_simp
  have 2: "\<not> one_eq ''nickname''" by code_simp
  have 3: "before_eq ''ip=10.0.0.7'' = ''ip''" "after_eq ''ip=10.0.0.7'' = ''10.0.0.7''"
    "fix_key ''ip'' = ''ip''"
    by code_simp+
  show ?thesis
    using C6_split_when_exactly_one_eq [of "''ip=10.0.0.7''" "[]" "[]"]
      C6_split_when_exactly_one_eq [of "''nickname''" "[]" "[]"] 1 2 3
    by simp
qed

text \<open>
  C6, counterexample.  \<open>item.split("=")\<close> splits at every \<open>=\<close>, so a token with a second
  \<open>=\<close> gives three parts and the unpacking into \<open>key, value\<close> raises \<open>ValueError\<close>.
\<close>

theorem C6_counterexample:
  "CHR ''='' \<in> set ''nickname=a=b'' \<and>
   split_on CHR ''='' ''nickname=a=b'' = [''nickname'', ''a'', ''b''] \<and>
   parse_loop [''nickname=a=b''] [] = ([], Some ValueError)"
  by code_simp

text \<open>
  C7.  A listener made with \<open>timeout=0\<close> has a non-blocking socket.  When no datagram is
  there, \<open>recvfrom\<close> raises \<open>BlockingIOError\<close>, which \<open>except timeout\<close> does not catch:
  the call raises instead of returning \<open>None\<close>.  (The call does make one receive attempt
  only, and with another timeout it returns \<open>None\<close>: \<open>one_receive_per_call\<close>,
  \<open>timeout_gives_None\<close>.)
\<close>

theorem C7_no_datagram_raises_when_timeout_is_0:
  "FlexRadioDiscoveryListener ''0.0.0.0'' 4992 0 (willing_host []) = Inr nonblocking_listener \<and>
   getDiscoveryPacket nonblocking_listener = (Inl BlockingIOError, nonblocking_listener, [])"
  by code_simp

text \<open>
  C8.  \<open>model\<close> appears in two tokens, and its last token is the final token of the
  payload.  The call returns a record, but the field is \<open>FLEX-6600'\<close>, not the value
  \<open>FLEX-6600\<close> of the last occurrence: the closing quote of the text \<open>str()\<close> makes of the
  bytes stays on the last value.  (The assignment to the dictionary does let the last
  occurrence win: \<open>last_occurrence_wins\<close>.)
\<close>

theorem C8_last_value_keeps_closing_quote:
  "getDiscoveryPacket (default_listener
      [Datagram (zero_header @ ''model=FLEX-6400 model=FLEX-6600'')]) =
   (Inr (Some
      [(''requires_additional_license'', PNone), (''nickname'', PNone),
       (''version'', PNone), (''discovery_protocol_version'', PNone),
       (''inuse_ip'', PNone), (''model'', PStr (''FLEX-6600'' @ [CHR 0x27])),
       (''max_licensed_version'', PNone), (''serial'', PNone),
       (''inuse_host'', PNone), (''port'', PNone), (''radio_license_id'', PNone),
       (''ip'', PNone), (''status'', PNone), (''callsign'', PNone), (''fpc_mac'', PNone)]),
    \<lparr>sock_timeout = 3, sock = [],
     packet_values = [(''model'', ''FLEX-6600'' @ [CHR 0x27])]\<rparr>,
    [])"
  by code_simp

text \<open>
  C9.  When the same datagram is received by two successive calls, the second call gives
  the result of the first: the same record, attribute for attribute (or the same
  \<open>ValueError\<close>), the same printed lines for the keys that are not attributes, and the
  same dictionary in the listener.
\<close>

theorem C9_same_datagram_twice_same_record:
  assumes "sock l = Datagram data # Datagram data # rest"
  shows "fst (getDiscoveryPacket (fst (snd (getDiscoveryPacket l)))) = fst (getDiscoveryPacket l) \<and>
         snd (snd (getDiscoveryPacket (fst (snd (getDiscoveryPacket l))))) =
           snd (snd (getDiscoveryPacket l)) \<and>
         packet_values (fst (snd (getDiscoveryPacket (fst (snd (getDiscoveryPacket l)))))) =
           packet_values (fst (snd (getDiscoveryPacket l)))"
proof -
  let ?l1 = "fst (snd (getDiscoveryPacket l))"
  have s1: "sock ?l1 = Datagram data # rest"
    by (simp add: getDiscoveryPacket_Datagram [OF assms] Let_def)
  show ?thesis
    unfolding getDiscoveryPacket_Datagram [OF s1]
    by (simp add: getDiscoveryPacket_Datagram [OF assms] Let_def fold_store_idem)
qed

theorem C9_witness:
  "fst (getDiscoveryPacket (fst (snd (getDiscoveryPacket
      (default_listener [Datagram (zero_header @ ''foo=bar model=FLEX-6600 foo=baz''),
         Datagram (zero_header @ ''foo=bar model=FLEX-6600 foo=baz'')]))))) =
   Inr (Some
      [(''requires_additional_license'', PNone), (''nickname'', PNone),
       (''version'', PNone), (''discovery_protocol_version'', PNone),
       (''inuse_ip'', PNone), (''model'', PStr ''FLEX-6600''),
       (''max_licensed_version'', PNone), (''serial'', PNone),
       (''inuse_host'', PNone), (''port'', PNone), (''radio_license_id'', PNone),
       (''ip'', PNone), (''status'', PNone), (''callsign'', PNone), (''fpc_mac'', PNone)]) \<and>
   snd (snd (getDiscoveryPacket (fst (snd (getDiscoveryPacket
      (default_listener [Datagram (zero_header @ ''foo=bar model=FLEX-6600 foo=baz''),
         Datagram (zero_header @ ''foo=bar model=FLEX-6600 foo=baz'')])))))) =
   diag ''foo'' (''baz'' @ [CHR 0x27])"
proof -
  let ?l = "default_listener [Datagram (zero_header @ ''foo=bar model=FLEX-6600 foo=baz''),
         Datagram (zero_header @ ''foo=bar model=FLEX-6600 foo=baz'')]"
  have s: "sock ?l = Datagram (zero_header @ ''foo=bar model=FLEX-6600 foo=baz'') #
        Datagram (zero_header @ ''foo=bar model=FLEX-6600 foo=baz'') # []"
    by (simp add: default_listener_def)
  have f: "fst (getDiscoveryPacket ?l) = Inr (Some
      [(''requires_additional_license'', PNone), (''nickname'', PNone),
       (''version'', PNone), (''discovery_protocol_version'', PNone),
       (''inuse_ip'', PNone), (''model'', PStr ''FLEX-6600''),
       (''max_licensed_version'', PNone), (''serial'', PNone),
       (''inuse_host'', PNone), (''port'', PNone), (''radio_license_id'', PNone),
       (''ip'', PNone), (''status'', PNone), (''callsign'', PNone), (''fpc_mac'', PNone)])"
    by code_simp
  have o: "snd (snd (getDiscoveryPacket ?l)) = diag ''foo'' (''baz'' @ [CHR 0x27])"
    by code_simp
  show ?thesis using C9_same_datagram_twice_same_record [OF s] f o by simp
qed

text \<open>
  C10.  The keys \<open>_assignValues\<close> treats as known are the names of \<open>dir(self)\<close> that do
  not start with two underscores: the 15 fields and \<open>_assignValues\<close> itself, which is the
  method until it is assigned.  When the dictionary has the key \<open>_assignValues\<close>, with
  any value, the object gets an attribute of that name holding the value, in place of
  the method, and what is printed is what would be printed without that entry.
\<close>

theorem C10_assignValues_is_a_known_key:
  "filter (\<lambda>item. \<not> startswith item ''__'') (py_dir init_attrs) = ''_assignValues'' # schema \<and>
   py_getattr init_attrs ''_assignValues'' = Inr (PClassAttr ''_assignValues'') \<and>
   (distinct (map fst pv) \<and> (''_assignValues'', v) \<in> set pv \<longrightarrow>
      py_getattr (fst (FlexRadioDiscoveryPacket pv)) ''_assignValues'' = Inr (PStr v) \<and>
      snd (FlexRadioDiscoveryPacket pv) =
        snd (FlexRadioDiscoveryPacket (filter (\<lambda>(k, v). k \<noteq> ''_assignValues'') pv)))"
proof -
  have 1: "py_getattr init_attrs ''_assignValues'' = Inr (PClassAttr ''_assignValues'')"
    by code_simp
  have 2: "py_getattr (fst (FlexRadioDiscoveryPacket pv)) ''_assignValues'' = Inr (PStr v)"
    if "distinct (map fst pv)" "(''_assignValues'', v) \<in> set pv"
    using that by (rule FlexRadioDiscoveryPacket_sets) simp
  have 3: "snd (FlexRadioDiscoveryPacket pv) =
        snd (FlexRadioDiscoveryPacket (filter (\<lambda>(k, v). k \<noteq> ''_assignValues'') pv))"
  proof -
    have "filter (\<lambda>(k, v). k \<notin> set (''_assignValues'' # schema))
            (filter (\<lambda>(k, v). k \<noteq> ''_assignValues'') pv) =
          filter (\<lambda>(k, v). k \<notin> set (''_assignValues'' # schema)) pv"
      by (induction pv) auto
    then show ?thesis by (simp only: FlexRadioDiscoveryPacket_out)
  qed
  show ?thesis using obj_var_list_init 1 2 3 by blast
qed

theorem C10_witness:
  "getDiscoveryPacket (default_listener
      [Datagram (zero_header @ ''_assignValues=overwritten model=FLEX-6600'')]) =
   (Inr (Some
      [(''requires_additional_license'', PNone), (''nickname'', PNone),
       (''version'', PNone), (''discovery_protocol_version'', PNone),
       (''inuse_ip'', PNone), (''model'', PStr (''FLEX-6600'' @ [CHR 0x27])),
       (''max_licensed_version'', PNone), (''serial'', PNone),
       (''inuse_host'', PNone), (''port'', PNone), (''radio_license_id'', PNone),
       (''ip'', PNone), (''status'', PNone), (''callsign'', PNone), (''fpc_mac'', PNone),
       (''_assignValues'', PStr ''overwritten'')]),
    \<lparr>sock_timeout = 3, sock = [],
     packet_values = [(''_assignValues'', ''overwritten''), (''model'', ''FLEX-6600'' @ [CHR 0x27])]\<rparr>,
    []) \<and>
   py_getattr (fst (FlexRadioDiscoveryPacket
      [(''_assignValues'', ''overwritten''), (''model'', ''FLEX-6600'' @ [CHR 0x27])]))
     ''_assignValues'' = Inr (PStr ''overwritten'') \<and>
   snd (FlexRadioDiscoveryPacket
      [(''_assignValues'', ''overwritten''), (''model'', ''FLEX-6600'' @ [CHR 0x27])]) = []"
proof -
  have e: "getDiscoveryPacket (default_listener
      [Datagram (zero_header @ ''_assignValues=overwritten model=FLEX-6600'')]) =
   (Inr (Some
      [(''requires_additional_license'', PNone), (''nickname'', PNone),
       (''version'', PNone), (''discovery_protocol_version'', PNone),
       (''inuse_ip'', PNone), (''model'', PStr (''FLEX-6600'' @ [CHR 0x27])),
       (''max_licensed_version'', PNone), (''serial'', PNone),
       (''inuse_host'', PNone), (''port'', PNone), (''radio_license_id'', PNone),
       (''ip'', PNone), (''status'', PNone), (''callsign'', PNone), (''fpc_mac'', PNone),
       (''_assignValues'', PStr ''overwritten'')]),
    \<lparr>sock_timeout = 3, sock = [],
     packet_values = [(''_assignValues'', ''overwritten''), (''model'', ''FLEX-6600'' @ [CHR 0x27])]\<rparr>,
    [])"
    by code_simp
  have n: "snd (FlexRadioDiscoveryPacket [(''model'', ''FLEX-6600'' @ [CHR 0x27])]) = []"
    by code_simp
  show ?thesis
    using e n C10_assignValues_is_a_known_key
      [of "[(''_assignValues'', ''overwritten''), (''model'', ''FLEX-6600'' @ [CHR 0x27])]"
          "''overwritten''"]
    by simp
qed

end
